theory Spec2Isabelle
  imports Main "HOL-Library.Word"
begin

section \<open>The OBD-II monitor server: data model\<close>

text \<open>
  The embedding follows \<^verbatim>\<open>src/obd_monitor_server.c\<close>: \<^verbatim>\<open>send_ecu_query\<close>,
  \<^verbatim>\<open>recv_ecu_reply\<close> and the body of the \<^verbatim>\<open>while (1)\<close> loop of \<^verbatim>\<open>main\<close>.

  A byte is an \<^verbatim>\<open>unsigned char\<close>. A buffer is the list of its bytes, its length being
  the declared size of the array. A C string is read out of a buffer up to the first
  zero byte.

  Everything the code does to the outside is an event, appended to a trace in the
  order in which the code does it: the calls of the serial library, the stores into
  the reply buffer, the lines written to standard output, the log entries and the
  datagrams sent.

  The header \<^verbatim>\<open>obd_monitor.h\<close> is not part of the sources at hand, so the size
  \<^verbatim>\<open>BUFFER_MAX_LEN\<close> it defines is a parameter of every function that uses it.
\<close>

type_synonym byte = "8 word"

definition bytes :: "string \<Rightarrow> byte list" where
  "bytes s = map of_char s"

datatype console_line =
    Bad_message_length
  | Txd int "byte list"
  | Interpreter_ready

datatype event =
    RS232_SendBuf int "byte list"
  | RS232_flushTX int
  | RS232_PollComport int "byte list"
  | RS232_flushRX int
  | Store_reply nat byte
  | Printf console_line
  | Print_log_entry "byte list"
  | Sendto "byte list"

text \<open>
  What C leaves undefined ends the run of the model: a store behind the end of the reply
  buffer (with the index of the store), a \<^verbatim>\<open>sprintf\<close> that does not fit
  \<^verbatim>\<open>log_buf\<close>, a read that runs over the end of a buffer. \<^verbatim>\<open>fatal_error\<close>
  (\<^verbatim>\<open>perror\<close>, then \<^verbatim>\<open>exit\<close>) ends it too.
\<close>

datatype abort =
    Reply_overflow nat
  | Log_overflow
  | Buffer_overrun
  | Fatal_error string

type_synonym 'a outcome = "(abort + 'a) \<times> event list"

definition c_str :: "byte list \<Rightarrow> byte list" where
  "c_str s = takeWhile (\<lambda>b. b \<noteq> 0) s"

definition strlen :: "byte list \<Rightarrow> nat" where
  "strlen s = length (c_str s)"

section \<open>send\_ecu\_query\<close>

text \<open>
  \<^verbatim>\<open>ecu_query\<close> is the memory from the pointer on; the end of the list stands for a
  terminator (the callers hand over terminated buffers). \<^verbatim>\<open>strlen\<close>'s result is
  assigned to an \<^verbatim>\<open>int\<close>; the conversion is exact for every string shorter than
  \<open>2 ^ 31\<close> bytes, which the buffers of this program all are.
\<close>

definition send_ecu_query :: "nat \<Rightarrow> int \<Rightarrow> byte list \<Rightarrow> event list \<Rightarrow> int \<times> event list" where
  "send_ecu_query BUFFER_MAX_LEN serial_port ecu_query tr =
     (let out_msg_len = int (strlen ecu_query) in
      if out_msg_len < 1 \<or> out_msg_len > int BUFFER_MAX_LEN
      then (0, tr @ [Printf Bad_message_length])
      else (out_msg_len,
            tr @ [RS232_SendBuf serial_port (take (nat out_msg_len) ecu_query),
                  Printf (Txd out_msg_len (c_str ecu_query)),
                  RS232_flushTX serial_port]))"

section \<open>recv\_ecu\_reply\<close>

text \<open>
  The local variables \<^verbatim>\<open>msg_idx\<close> and \<^verbatim>\<open>interpreter_ready_status\<close>, and the
  buffer \<^verbatim>\<open>ecu_reply\<close> of the caller. \<^verbatim>\<open>msg_idx\<close> is an \<^verbatim>\<open>int\<close> that starts at 0
  and grows by one with every store; the model ends at the first store outside of the
  buffer, so the index stays a natural number below the size of the buffer.
\<close>

record framer =
  msg_idx :: nat
  interpreter_ready_status :: int
  ecu_reply :: "byte list"

text \<open>The statement pair \<^verbatim>\<open>ecu_reply[msg_idx] = b; msg_idx++;\<close>. The code does not
  compare \<^verbatim>\<open>msg_idx\<close> with the size of the caller's buffer.\<close>

definition store_reply :: "byte \<Rightarrow> framer \<Rightarrow> event list \<Rightarrow> framer outcome" where
  "store_reply b s tr =
     (if msg_idx s < length (ecu_reply s)
      then (Inr (s\<lparr>ecu_reply := (ecu_reply s)[msg_idx s := b], msg_idx := msg_idx s + 1\<rparr>),
            tr @ [Store_reply (msg_idx s) b])
      else (Inl (Reply_overflow (msg_idx s)), tr @ [Store_reply (msg_idx s) b]))"

text \<open>The body of the \<^verbatim>\<open>for\<close> loop, for the byte \<^verbatim>\<open>in_buf[buf_idx]\<close>.\<close>

definition frame_byte :: "byte \<Rightarrow> framer \<Rightarrow> event list \<Rightarrow> framer outcome" where
  "frame_byte b s tr =
     (if b < 32
      then (if b = 13 then store_reply 33 s tr else (Inr s, tr))
      else if b = 62
      then (case store_reply b (s\<lparr>interpreter_ready_status := 1\<rparr>) tr of
              (Inl e, tr') \<Rightarrow> (Inl e, tr')
            | (Inr s', tr') \<Rightarrow> (Inr s', tr' @ [Printf Interpreter_ready]))
      else store_reply b s tr)"

text \<open>The \<^verbatim>\<open>for\<close> loop over the bytes of one poll. It has no \<^verbatim>\<open>break\<close>.\<close>

fun frame_chunk :: "byte list \<Rightarrow> framer \<Rightarrow> event list \<Rightarrow> framer outcome" where
  "frame_chunk [] s tr = (Inr s, tr)"
| "frame_chunk (b # bs) s tr =
     (case frame_byte b s tr of
        (Inl e, tr') \<Rightarrow> (Inl e, tr')
      | (Inr s', tr') \<Rightarrow> frame_chunk bs s' tr')"

text \<open>
  The \<^verbatim>\<open>while\<close> loop. \<open>poll i\<close> is what the \<open>i\<close>-th call of
  \<^verbatim>\<open>RS232_PollComport\<close> delivers: the bytes \<^verbatim>\<open>in_buf[0 .. in_msg_len - 1]\<close>, and the
  empty list when the call returns zero or a negative value (at most
  \<^verbatim>\<open>MAX_SERIAL_BUF_LEN\<close> bytes, a size of the missing header that no claim depends
  on). The loop has no timeout, so it may run forever: then the result is \<open>None\<close>.
\<close>

partial_function (option) recv_loop ::
  "(nat \<Rightarrow> byte list) \<Rightarrow> int \<Rightarrow> nat \<Rightarrow> framer \<Rightarrow> event list \<Rightarrow> framer outcome option" where
  "recv_loop poll serial_port i s tr =
     (if interpreter_ready_status s = 0
      then (case frame_chunk (poll i) s (tr @ [RS232_PollComport serial_port (poll i)]) of
              (Inl e, tr') \<Rightarrow> Some (Inl e, tr')
            | (Inr s', tr') \<Rightarrow> recv_loop poll serial_port (i + 1) s' tr')
      else Some (Inr s, tr))"

declare recv_loop.simps [code]

definition recv_ecu_reply ::
  "(nat \<Rightarrow> byte list) \<Rightarrow> int \<Rightarrow> byte list \<Rightarrow> event list \<Rightarrow> (int \<times> byte list) outcome option" where
  "recv_ecu_reply poll serial_port ecu_reply_buf tr =
     (case recv_loop poll serial_port 0
             \<lparr>msg_idx = 0, interpreter_ready_status = 0, ecu_reply = ecu_reply_buf\<rparr> tr of
        None \<Rightarrow> None
      | Some (Inl e, tr') \<Rightarrow> Some (Inl e, tr')
      | Some (Inr s, tr') \<Rightarrow>
          Some (Inr (int (msg_idx s), ecu_reply s), tr' @ [RS232_flushRX serial_port]))"

section \<open>The reply branch of main\<close>

text \<open>\<^verbatim>\<open>sprintf(log_buf, "<prefix>%s", s)\<close> with \<^verbatim>\<open>char log_buf[BUFFER_MAX_LEN]\<close>:
  the prefix, the string and the terminator have to fit.\<close>

definition sprintf_log :: "nat \<Rightarrow> string \<Rightarrow> byte list \<Rightarrow> abort + byte list" where
  "sprintf_log BUFFER_MAX_LEN prefix s =
     (if length prefix + strlen s + 1 \<le> BUFFER_MAX_LEN
      then Inr (bytes prefix @ c_str s)
      else Inl Log_overflow)"

text \<open>Modelled from the spec: \<^verbatim>\<open>replacechar\<close> is called by \<^verbatim>\<open>main\<close> and defined
  in a file that is not part of the sources at hand. The specification says of the
  call \<^verbatim>\<open>replacechar(ecu_msg, '!', ' ')\<close>: "replace every \<^verbatim>\<open>!\<close> delimiter with a literal
  space and return the whole reply unchanged otherwise". The string is the buffer up
  to its first zero byte.\<close>

definition replacechar :: "byte list \<Rightarrow> byte \<Rightarrow> byte \<Rightarrow> byte list" where
  "replacechar str orig rep =
     map (\<lambda>c. if c = orig then rep else c) (c_str str) @ dropWhile (\<lambda>b. b \<noteq> 0) str"

text \<open>
  \<^verbatim>\<open>strtok\<close> of the C library with the one delimiter \<open>d\<close>, on the rest of the string
  that the tokenizer has not consumed: it skips delimiters, returns \<^verbatim>\<open>NULL\<close> when
  nothing is left, and else the bytes up to the next delimiter, together with the
  rest behind that delimiter.
\<close>

definition strtok :: "byte \<Rightarrow> byte list \<Rightarrow> (byte list \<times> byte list) option" where
  "strtok d s =
     (let s1 = dropWhile (\<lambda>b. b = d) s in
      if s1 = [] then None
      else Some (takeWhile (\<lambda>b. b \<noteq> d) s1, drop 1 (dropWhile (\<lambda>b. b \<noteq> d) s1)))"

text \<open>The two calls \<^verbatim>\<open>strtok(ecu_msg, "!")\<close> and \<^verbatim>\<open>strtok(NULL, "!")\<close>; the result is
  the second \<^verbatim>\<open>pch\<close>.\<close>

definition second_strtok :: "byte list \<Rightarrow> byte list option" where
  "second_strtok s =
     (case strtok 33 s of
        None \<Rightarrow> None
      | Some (t1, rest) \<Rightarrow> (case strtok 33 rest of None \<Rightarrow> None | Some (t2, rest') \<Rightarrow> Some t2))"

text \<open>\<^verbatim>\<open>n = sendto(...); if (n < 0) fatal_error("sendto");\<close> where \<open>sendto_rc\<close> is the
  value the system call returns for the payload.\<close>

definition do_sendto :: "(byte list \<Rightarrow> int) \<Rightarrow> byte list \<Rightarrow> event list \<Rightarrow> unit outcome" where
  "do_sendto sendto_rc payload tr =
     (if sendto_rc payload < 0
      then (Inl (Fatal_error ''sendto''), tr @ [Sendto payload])
      else (Inr (), tr @ [Sendto payload]))"

text \<open>
  Lines 305 to 339 of \<^verbatim>\<open>main\<close>, the body of \<^verbatim>\<open>if (n > 0)\<close>: what is done with the
  \<open>n\<close> and the \<^verbatim>\<open>ecu_msg\<close> that \<^verbatim>\<open>recv_ecu_reply\<close> has returned. The string
  functions read \<^verbatim>\<open>ecu_msg\<close> up to its first zero byte, and behind the end of the
  buffer when it holds none.
\<close>

definition classify_reply ::
  "nat \<Rightarrow> (byte list \<Rightarrow> int) \<Rightarrow> int \<Rightarrow> byte list \<Rightarrow> event list \<Rightarrow> unit outcome" where
  "classify_reply BUFFER_MAX_LEN sendto_rc n ecu_msg tr =
     (case ecu_msg of
        [] \<Rightarrow> (Inl Buffer_overrun, tr)
      | c # cs \<Rightarrow>
          if 0 \<notin> set ecu_msg then (Inl Buffer_overrun, tr)
          else if c = 65 then
            (let ecu_msg' = replacechar ecu_msg 33 32 in
             case sprintf_log BUFFER_MAX_LEN ''RXD: '' ecu_msg' of
               Inl e \<Rightarrow> (Inl e, tr)
             | Inr log_buf \<Rightarrow>
                 if nat n > length ecu_msg'
                 then (Inl Buffer_overrun, tr @ [Print_log_entry log_buf])
                 else do_sendto sendto_rc (take (nat n) ecu_msg')
                        (tr @ [Print_log_entry log_buf]))
          else if c = 48 then
            (case second_strtok (c_str ecu_msg) of
               None \<Rightarrow> (Inr (), tr)
             | Some pch \<Rightarrow>
                 (case sprintf_log BUFFER_MAX_LEN ''RXD: '' pch of
                    Inl e \<Rightarrow> (Inl e, tr)
                  | Inr log_buf \<Rightarrow>
                      do_sendto sendto_rc (c_str pch) (tr @ [Print_log_entry log_buf])))
          else
            (case sprintf_log BUFFER_MAX_LEN ''RXD Unknown ECU Message: '' ecu_msg of
               Inl e \<Rightarrow> (Inl e, tr)
             | Inr log_buf \<Rightarrow> (Inr (), tr @ [Print_log_entry log_buf])))"

text \<open>Lines 298 to 340: the guard \<^verbatim>\<open>if (n > 0)\<close> and its body.\<close>

definition process_reply ::
  "nat \<Rightarrow> (byte list \<Rightarrow> int) \<Rightarrow> int \<Rightarrow> byte list \<Rightarrow> event list \<Rightarrow> unit outcome" where
  "process_reply BUFFER_MAX_LEN sendto_rc n ecu_msg tr =
     (if n > 0 then classify_reply BUFFER_MAX_LEN sendto_rc n ecu_msg tr else (Inr (), tr))"

section \<open>One iteration of the loop of main\<close>

text \<open>Lines 288 to 340: the query in \<^verbatim>\<open>in_buf\<close> is sent, the reply is received into
  \<^verbatim>\<open>ecu_msg\<close> and processed. \<^verbatim>\<open>recv_ecu_reply\<close> is called whatever
  \<^verbatim>\<open>send_ecu_query\<close> has returned.\<close>

definition serve_query ::
  "nat \<Rightarrow> int \<Rightarrow> (byte list \<Rightarrow> int) \<Rightarrow> (nat \<Rightarrow> byte list) \<Rightarrow> byte list \<Rightarrow> byte list \<Rightarrow>
   event list \<Rightarrow> unit outcome option" where
  "serve_query BUFFER_MAX_LEN serial_port sendto_rc poll in_buf ecu_msg tr =
     (case send_ecu_query BUFFER_MAX_LEN serial_port in_buf tr of
        (n, tr1) \<Rightarrow>
          (case (if n > 0
                 then (case sprintf_log BUFFER_MAX_LEN ''TXD: '' in_buf of
                         Inl e \<Rightarrow> (Inl e, tr1)
                       | Inr log_buf \<Rightarrow> (Inr (), tr1 @ [Print_log_entry log_buf]))
                 else (Inr (), tr1)) of
             (Inl e, tr2) \<Rightarrow> Some (Inl e, tr2)
           | (Inr u, tr2) \<Rightarrow>
               (case recv_ecu_reply poll serial_port ecu_msg tr2 of
                  None \<Rightarrow> None
                | Some (Inl e, tr3) \<Rightarrow> Some (Inl e, tr3)
                | Some (Inr (n', ecu_msg'), tr3) \<Rightarrow>
                    Some (process_reply BUFFER_MAX_LEN sendto_rc n' ecu_msg' tr3))))"

text \<open>
  Lines 276 to 340. \<open>datagram\<close> is what \<^verbatim>\<open>recvfrom\<close> delivers: \<open>None\<close> when
  it returns a negative value, and else the payload, of which at most
  \<^verbatim>\<open>BUFFER_MAX_LEN\<close> bytes are written into the zeroed \<^verbatim>\<open>in_buf\<close>. When the payload
  fills \<^verbatim>\<open>in_buf\<close> without a zero byte, \<^verbatim>\<open>strlen\<close> reads behind its end.
\<close>

definition gateway_iteration ::
  "nat \<Rightarrow> int \<Rightarrow> (byte list \<Rightarrow> int) \<Rightarrow> (nat \<Rightarrow> byte list) \<Rightarrow> byte list option \<Rightarrow>
   event list \<Rightarrow> unit outcome option" where
  "gateway_iteration BUFFER_MAX_LEN serial_port sendto_rc poll datagram tr =
     (case datagram of
        None \<Rightarrow> Some (Inl (Fatal_error ''recvfrom''), tr)
      | Some d \<Rightarrow>
          (let in_buf = take BUFFER_MAX_LEN d @ replicate (BUFFER_MAX_LEN - length d) 0 in
           if 0 \<notin> set in_buf then Some (Inl Buffer_overrun, tr)
           else serve_query BUFFER_MAX_LEN serial_port sendto_rc poll in_buf
                  (replicate BUFFER_MAX_LEN 0) tr))"

section \<open>Reading a trace\<close>

text \<open>The bytes that the polls of a trace have delivered, in order.\<close>

fun polled_of :: "event \<Rightarrow> byte list" where
  "polled_of (RS232_PollComport p c) = c"
| "polled_of e = []"

definition polled :: "event list \<Rightarrow> byte list" where
  "polled tr = concat (map polled_of tr)"

text \<open>The stores into the reply buffer that a trace holds: index and byte, in order.\<close>

fun stored_of :: "event \<Rightarrow> (nat \<times> byte) list" where
  "stored_of (Store_reply i b) = [(i, b)]"
| "stored_of e = []"

definition stores :: "event list \<Rightarrow> (nat \<times> byte) list" where
  "stores tr = concat (map stored_of tr)"



section \<open>The rules of the specification, to compare the code with\<close>

text \<open>Section 4.1: a byte below 32 is ignored, except carriage return, for which the
  delimiter \<^verbatim>\<open>!\<close> is appended; every other byte is appended as it is.\<close>

definition frame_rule :: "byte \<Rightarrow> byte list" where
  "frame_rule b = (if b < 32 then (if b = 13 then [33] else []) else [b])"

definition framed :: "byte list \<Rightarrow> byte list" where
  "framed bs = concat (map frame_rule bs)"

text \<open>Section 4.2: the reply split on \<^verbatim>\<open>!\<close> into tokens. A token is a maximal run of
  bytes other than the delimiter, and is not empty.\<close>

fun split_fields :: "byte \<Rightarrow> byte list \<Rightarrow> byte list list" where
  "split_fields d [] = [[]]"
| "split_fields d (b # bs) =
     (if b = d then [] # split_fields d bs
      else (case split_fields d bs of [] \<Rightarrow> [[b]] | f # fs \<Rightarrow> (b # f) # fs))"

definition tokens :: "byte \<Rightarrow> byte list \<Rightarrow> byte list list" where
  "tokens d s = filter (\<lambda>f. f \<noteq> []) (split_fields d s)"

section \<open>The relation between the states of the framing loop\<close>

text \<open>The events of \<^verbatim>\<open>recv_ecu_reply\<close> before its final flush.\<close>

fun is_framing :: "event \<Rightarrow> bool" where
  "is_framing (Store_reply i b) = True"
| "is_framing (Printf l) = True"
| "is_framing (RS232_PollComport p c) = True"
| "is_framing e = False"

text \<open>
  \<open>frames s tr inp out s' tr'\<close>: from the state \<open>s\<close> and the trace \<open>tr\<close> the loop
  has come to \<open>s'\<close> and \<open>tr'\<close>, having polled the bytes \<open>inp\<close> and stored the
  bytes \<open>out\<close>, at the indices from \<open>msg_idx s\<close> on and inside the buffer.
\<close>

definition frames ::
  "framer \<Rightarrow> event list \<Rightarrow> byte list \<Rightarrow> byte list \<Rightarrow> framer \<Rightarrow> event list \<Rightarrow> bool" where
  "frames s tr inp out s' tr' =
     (length (ecu_reply s') = length (ecu_reply s) \<and>
      msg_idx s' = msg_idx s + length out \<and>
      msg_idx s' \<le> length (ecu_reply s) \<and>
      take (msg_idx s') (ecu_reply s') = take (msg_idx s) (ecu_reply s) @ out \<and>
      drop (msg_idx s') (ecu_reply s') = drop (msg_idx s') (ecu_reply s) \<and>
      (\<exists>ev. tr' = tr @ ev \<and> list_all is_framing ev \<and> polled ev = inp \<and>
            map fst (stores ev) = [msg_idx s..<msg_idx s'] \<and> map snd (stores ev) = out))"

section \<open>Lemmas on traces and on the framing loop\<close>

lemma stores_simps [simp]:
  "stores [] = []" "stores (e # tr) = stored_of e @ stores tr" "stores (tr @ tr2) = stores tr @ stores tr2"
  by (simp_all add: stores_def)

lemma polled_simps [simp]:
  "polled [] = []" "polled (e # tr) = polled_of e @ polled tr" "polled (tr @ tr2) = polled tr @ polled tr2"
  by (simp_all add: polled_def)

lemma frames_refl: "msg_idx s \<le> length (ecu_reply s) \<Longrightarrow> frames s tr [] [] s tr"
  by (simp add: frames_def)

lemma frames_trans:
  assumes "frames s tr inp1 out1 s1 tr1" "frames s1 tr1 inp2 out2 s2 tr2"
  shows "frames s tr (inp1 @ inp2) (out1 @ out2) s2 tr2"
proof -
  from assms(1) obtain ev1 where 1: "length (ecu_reply s1) = length (ecu_reply s)"
    "msg_idx s1 = msg_idx s + length out1" "msg_idx s1 \<le> length (ecu_reply s)"
    "take (msg_idx s1) (ecu_reply s1) = take (msg_idx s) (ecu_reply s) @ out1"
    "drop (msg_idx s1) (ecu_reply s1) = drop (msg_idx s1) (ecu_reply s)"
    "tr1 = tr @ ev1" "list_all is_framing ev1" "polled ev1 = inp1"
    "map fst (stores ev1) = [msg_idx s..<msg_idx s1]" "map snd (stores ev1) = out1"
    unfolding frames_def by blast
  from assms(2) obtain ev2 where 2: "length (ecu_reply s2) = length (ecu_reply s1)"
    "msg_idx s2 = msg_idx s1 + length out2" "msg_idx s2 \<le> length (ecu_reply s1)"
    "take (msg_idx s2) (ecu_reply s2) = take (msg_idx s1) (ecu_reply s1) @ out2"
    "drop (msg_idx s2) (ecu_reply s2) = drop (msg_idx s2) (ecu_reply s1)"
    "tr2 = tr1 @ ev2" "list_all is_framing ev2" "polled ev2 = inp2"
    "map fst (stores ev2) = [msg_idx s1..<msg_idx s2]" "map snd (stores ev2) = out2"
    unfolding frames_def by blast
  have d: "drop (msg_idx s2) (ecu_reply s2) = drop (msg_idx s2) (ecu_reply s)"
  proof -
    have "drop (msg_idx s2) (ecu_reply s1) = drop (length out2) (drop (msg_idx s1) (ecu_reply s1))"
      using 2(2) by (simp add: add.commute)
    also have "\<dots> = drop (length out2) (drop (msg_idx s1) (ecu_reply s))"
      using 1(5) by simp
    also have "\<dots> = drop (msg_idx s2) (ecu_reply s)"
      using 2(2) by (simp add: add.commute)
    finally show ?thesis using 2(5) by simp
  qed
  have u: "[msg_idx s..<msg_idx s1] @ [msg_idx s1..<msg_idx s2] = [msg_idx s..<msg_idx s2]"
    using 1(2) 2(2) by (metis le_add1 upt_add_eq_append)
  have "tr2 = tr @ (ev1 @ ev2) \<and> list_all is_framing (ev1 @ ev2) \<and> polled (ev1 @ ev2) = inp1 @ inp2 \<and>
        map fst (stores (ev1 @ ev2)) = [msg_idx s..<msg_idx s2] \<and>
        map snd (stores (ev1 @ ev2)) = out1 @ out2"
    using 1 2 u by simp
  then show ?thesis
    unfolding frames_def using 1 2 d by (intro conjI exI[of _ "ev1 @ ev2"]) simp_all
qed

lemma store_reply_frames:
  assumes "store_reply b s tr = (Inr s', tr')"
  shows "frames s tr [] [b] s' tr' \<and> interpreter_ready_status s' = interpreter_ready_status s"
proof -
  from assms have lt: "msg_idx s < length (ecu_reply s)"
    and s': "s' = s\<lparr>ecu_reply := (ecu_reply s)[msg_idx s := b], msg_idx := msg_idx s + 1\<rparr>"
    and tr': "tr' = tr @ [Store_reply (msg_idx s) b]"
    by (auto simp: store_reply_def split: if_splits)
  have "take (Suc (msg_idx s)) ((ecu_reply s)[msg_idx s := b]) = take (msg_idx s) (ecu_reply s) @ [b]"
    using lt by (simp add: take_Suc_conv_app_nth)
  then show ?thesis
    using lt unfolding frames_def s' tr'
    by (simp add: exI[of _ "[Store_reply (msg_idx s) b]"])
qed

lemma frame_byte_frames:
  assumes "frame_byte b s tr = (Inr s', tr')" "msg_idx s \<le> length (ecu_reply s)"
  shows "frames s tr [] (frame_rule b) s' tr' \<and>
         interpreter_ready_status s' = (if b = 62 then 1 else interpreter_ready_status s)"
proof (cases "b < 32")
  case True
  then have ne: "b \<noteq> 62" by auto
  show ?thesis
  proof (cases "b = 13")
    case True
    with assms \<open>b < 32\<close> have "store_reply 33 s tr = (Inr s', tr')"
      by (simp add: frame_byte_def)
    from store_reply_frames[OF this] True show ?thesis
      by (simp add: frame_rule_def)
  next
    case False
    with assms \<open>b < 32\<close> have "s' = s" "tr' = tr"
      by (simp_all add: frame_byte_def)
    with False \<open>b < 32\<close> ne assms(2) show ?thesis
      by (simp add: frame_rule_def frames_refl)
  qed
next
  case False
  show ?thesis
  proof (cases "b = 62")
    case True
    with assms False obtain tr1 where
      st: "store_reply b (s\<lparr>interpreter_ready_status := 1\<rparr>) tr = (Inr s', tr1)"
      and tr': "tr' = tr1 @ [Printf Interpreter_ready]"
      by (auto simp: frame_byte_def split: prod.splits sum.splits)
    from store_reply_frames[OF st]
    have f: "frames (s\<lparr>interpreter_ready_status := 1\<rparr>) tr [] [b] s' tr1"
      and r: "interpreter_ready_status s' = 1" by simp_all
    have "frames s' tr1 [] [] s' tr'"
      using f unfolding frames_def tr' by (simp add: exI[of _ "[Printf Interpreter_ready]"])
    from frames_trans[OF f this] have "frames s tr [] [b] s' tr'"
      by (auto simp: frames_def)
    with r True False show ?thesis by (simp add: frame_rule_def)
  next
    case b: False
    with assms False have "store_reply b s tr = (Inr s', tr')"
      by (simp add: frame_byte_def)
    from store_reply_frames[OF this] b False show ?thesis
      by (simp add: frame_rule_def)
  qed
qed

lemma frames_bound: "frames s tr inp out s' tr' \<Longrightarrow> msg_idx s' \<le> length (ecu_reply s')"
  by (simp add: frames_def)

lemma frame_chunk_frames:
  assumes "frame_chunk bs s tr = (Inr s', tr')" "msg_idx s \<le> length (ecu_reply s)"
  shows "frames s tr [] (framed bs) s' tr' \<and>
         interpreter_ready_status s' = (if 62 \<in> set bs then 1 else interpreter_ready_status s)"
  using assms
proof (induction bs arbitrary: s tr)
  case Nil
  then show ?case by (simp add: framed_def frames_refl)
next
  case (Cons b bs)
  from Cons.prems(1) obtain s1 tr1 where
    b: "frame_byte b s tr = (Inr s1, tr1)" and rest: "frame_chunk bs s1 tr1 = (Inr s', tr')"
    by (auto split: prod.splits sum.splits)
  from frame_byte_frames[OF b Cons.prems(2)]
  have f1: "frames s tr [] (frame_rule b) s1 tr1"
    and r1: "interpreter_ready_status s1 = (if b = 62 then 1 else interpreter_ready_status s)"
    by simp_all
  from Cons.IH[OF rest frames_bound[OF f1]]
  have f2: "frames s1 tr1 [] (framed bs) s' tr'"
    and r2: "interpreter_ready_status s' = (if 62 \<in> set bs then 1 else interpreter_ready_status s1)"
    by simp_all
  from frames_trans[OF f1 f2] have "frames s tr [] (framed (b # bs)) s' tr'"
    by (simp add: framed_def)
  with r1 r2 show ?case by auto
qed

lemma framed_append: "framed (xs @ ys) = framed xs @ framed ys"
  by (simp add: framed_def)

lemma frames_poll:
  assumes "frames s (tr @ [RS232_PollComport p c]) [] out s' tr'"
  shows "frames s tr c out s' tr'"
proof -
  from assms obtain ev where ev: "tr' = (tr @ [RS232_PollComport p c]) @ ev"
    "list_all is_framing ev" "polled ev = []"
    "map fst (stores ev) = [msg_idx s..<msg_idx s']" "map snd (stores ev) = out"
    and rest: "length (ecu_reply s') = length (ecu_reply s)"
      "msg_idx s' = msg_idx s + length out"
      "msg_idx s' \<le> length (ecu_reply s)"
      "take (msg_idx s') (ecu_reply s') = take (msg_idx s) (ecu_reply s) @ out"
      "drop (msg_idx s') (ecu_reply s') = drop (msg_idx s') (ecu_reply s)"
    unfolding frames_def by blast
  show ?thesis
    unfolding frames_def
    apply (intro conjI exI[of _ "RS232_PollComport p c # ev"])
    using ev rest by simp_all
qed

lemma recv_loop_frames:
  assumes run: "recv_loop poll port i s tr = Some (Inr s', tr')"
    and bnd: "msg_idx s \<le> length (ecu_reply s)"
  shows "\<exists>inp. frames s tr inp (framed inp) s' tr' \<and>
           interpreter_ready_status s' = (if 62 \<in> set inp then 1 else interpreter_ready_status s) \<and>
           interpreter_ready_status s' \<noteq> 0"
proof -
  define P where "P = (\<lambda>(poll :: nat \<Rightarrow> byte list) (port :: int) (i :: nat) s tr (y :: framer outcome).
      \<forall>s' tr'. y = (Inr s', tr') \<longrightarrow> msg_idx s \<le> length (ecu_reply s) \<longrightarrow>
          (\<exists>inp. frames s tr inp (framed inp) s' tr' \<and>
           interpreter_ready_status s' = (if 62 \<in> set inp then 1 else interpreter_ready_status s) \<and>
           interpreter_ready_status s' \<noteq> 0))"
  have "P poll port i s tr (Inr s', tr')"
  proof (rule recv_loop.raw_induct[where P = P, OF _ run])
    fix f poll port i s tr y
    assume IH: "\<And>poll port i s tr y. f poll port i s tr = Some y \<Longrightarrow> P poll port i s tr y"
      and eq: "(if interpreter_ready_status s = 0
          then case frame_chunk (poll i) s (tr @ [RS232_PollComport port (poll i)]) of
               (Inl e, tr') \<Rightarrow> Some (Inl e, tr')
               | (Inr s', tr') \<Rightarrow> f poll port (i + 1) s' tr'
          else Some (Inr s, tr)) = Some y"
    show "P poll port i s tr y"
      unfolding P_def
    proof (intro allI impI)
      fix s' tr'
      assume y: "y = (Inr s', tr')" and bnd: "msg_idx s \<le> length (ecu_reply s)"
      show "\<exists>inp. frames s tr inp (framed inp) s' tr' \<and>
           interpreter_ready_status s' = (if 62 \<in> set inp then 1 else interpreter_ready_status s) \<and>
           interpreter_ready_status s' \<noteq> 0"
      proof (cases "interpreter_ready_status s = 0")
        case False
        with eq y have "s' = s" "tr' = tr" by simp_all
        with False bnd have "frames s tr [] (framed []) s' tr' \<and>
           interpreter_ready_status s' = (if 62 \<in> set ([]::byte list) then 1 else interpreter_ready_status s) \<and>
           interpreter_ready_status s' \<noteq> 0"
          by (simp add: frames_refl framed_def)
        then show ?thesis by (rule exI)
      next
        case True
        with eq y obtain s1 tr1 where
          c: "frame_chunk (poll i) s (tr @ [RS232_PollComport port (poll i)]) = (Inr s1, tr1)"
          and r: "f poll port (i + 1) s1 tr1 = Some (Inr s', tr')"
          by (auto split: prod.splits sum.splits)
        from frame_chunk_frames[OF c bnd]
        have f1: "frames s (tr @ [RS232_PollComport port (poll i)]) [] (framed (poll i)) s1 tr1"
          and r1: "interpreter_ready_status s1 = (if 62 \<in> set (poll i) then 1 else interpreter_ready_status s)"
          by simp_all
        from frames_poll[OF f1] have f1': "frames s tr (poll i) (framed (poll i)) s1 tr1" .
        from IH[OF r] frames_bound[OF f1'] obtain inp where
          f2: "frames s1 tr1 inp (framed inp) s' tr'"
          and r2: "interpreter_ready_status s' = (if 62 \<in> set inp then 1 else interpreter_ready_status s1)"
          and r3: "interpreter_ready_status s' \<noteq> 0"
          unfolding P_def by blast
        from frames_trans[OF f1' f2]
        have "frames s tr (poll i @ inp) (framed (poll i @ inp)) s' tr'"
          by (simp add: framed_append)
        moreover have "interpreter_ready_status s' =
            (if 62 \<in> set (poll i @ inp) then 1 else interpreter_ready_status s)"
          using r1 r2 by auto
        ultimately have "frames s tr (poll i @ inp) (framed (poll i @ inp)) s' tr' \<and>
           interpreter_ready_status s' = (if 62 \<in> set (poll i @ inp) then 1 else interpreter_ready_status s) \<and>
           interpreter_ready_status s' \<noteq> 0" using r3 by simp
        then show ?thesis by (rule exI)
      qed
    qed
  qed
  with bnd show ?thesis by (simp add: P_def)
qed

lemma replicate_numeral: "replicate (numeral k) x = x # replicate (pred_numeral k) x"
  by (simp add: numeral_eq_Suc)

lemma frame_rule_ge: "b \<in> set (frame_rule c) \<Longrightarrow> 32 \<le> b"
  by (auto simp: frame_rule_def split: if_splits)

lemma framed_ge: "b \<in> set (framed bs) \<Longrightarrow> 32 \<le> b"
  by (auto simp: framed_def dest: frame_rule_ge)

lemma framed_ready: "62 \<in> set bs \<Longrightarrow> 62 \<in> set (framed bs)"
  by (induction bs) (auto simp: framed_def frame_rule_def)

lemma recv_ecu_reply_Inr:
  assumes "recv_ecu_reply poll port buf tr = Some (Inr (n, buf'), tr')"
  shows "\<exists>ev. tr' = tr @ ev @ [RS232_flushRX port] \<and> list_all is_framing ev \<and>
           62 \<in> set (polled ev) \<and>
           n = int (length (framed (polled ev))) \<and> length (framed (polled ev)) \<le> length buf \<and>
           length buf' = length buf \<and>
           take (nat n) buf' = framed (polled ev) \<and> drop (nat n) buf' = drop (nat n) buf \<and>
           map fst (stores ev) = [0..<nat n] \<and> map snd (stores ev) = framed (polled ev)"
proof -
  let ?s0 = "\<lparr>msg_idx = 0, interpreter_ready_status = 0, ecu_reply = buf\<rparr>"
  from assms obtain s' tr1 where
    run: "recv_loop poll port 0 ?s0 tr = Some (Inr s', tr1)"
    and n: "n = int (msg_idx s')" and b: "buf' = ecu_reply s'"
    and t: "tr' = tr1 @ [RS232_flushRX port]"
    by (auto simp: recv_ecu_reply_def split: option.splits prod.splits sum.splits)
  from recv_loop_frames[OF run] obtain inp where
    f: "frames ?s0 tr inp (framed inp) s' tr1"
    and r: "interpreter_ready_status s' = (if 62 \<in> set inp then 1 else 0)"
    and r0: "interpreter_ready_status s' \<noteq> 0"
    by auto
  from r r0 have in62: "62 \<in> set inp" by (auto split: if_splits)
  from f obtain ev where ev: "tr1 = tr @ ev" "list_all is_framing ev" "polled ev = inp"
    "map fst (stores ev) = [0..<msg_idx s']" "map snd (stores ev) = framed inp"
    and rest: "length (ecu_reply s') = length buf" "msg_idx s' = length (framed inp)"
      "msg_idx s' \<le> length buf" "take (msg_idx s') (ecu_reply s') = framed inp"
      "drop (msg_idx s') (ecu_reply s') = drop (msg_idx s') buf"
    unfolding frames_def by auto
  show ?thesis
    apply (rule exI[of _ ev])
    using ev rest n b t in62 by simp
qed







lemma overflow_loop:
  assumes "interpreter_ready_status s = 0" "msg_idx s \<le> length (ecu_reply s)"
  shows "recv_loop (\<lambda>i. [65]) port i s tr =
     Some (Inl (Reply_overflow (length (ecu_reply s))),
           tr @ concat (map (\<lambda>k. [RS232_PollComport port [65], Store_reply k 65])
                            [msg_idx s..<Suc (length (ecu_reply s))]))"
  using assms
proof (induction "length (ecu_reply s) - msg_idx s" arbitrary: s i tr)
  case 0
  then have eq: "msg_idx s = length (ecu_reply s)" by simp
  show ?case
    by (subst recv_loop.simps) (simp add: 0(2) eq frame_byte_def store_reply_def)
next
  case (Suc d)
  then have lt: "msg_idx s < length (ecu_reply s)" by simp
  let ?s1 = "s\<lparr>ecu_reply := (ecu_reply s)[msg_idx s := 65], msg_idx := msg_idx s + 1\<rparr>"
  let ?tr1 = "tr @ [RS232_PollComport port [65], Store_reply (msg_idx s) 65]"
  have step: "recv_loop (\<lambda>i. [65]) port i s tr = recv_loop (\<lambda>i. [65]) port (i + 1) ?s1 ?tr1"
    by (subst recv_loop.simps) (simp add: Suc.prems(1) lt frame_byte_def store_reply_def)
  have d: "d = length (ecu_reply ?s1) - msg_idx ?s1" using Suc(2) by simp
  have r: "interpreter_ready_status ?s1 = 0" using Suc.prems(1) by simp
  have b: "msg_idx ?s1 \<le> length (ecu_reply ?s1)" using lt by simp
  have u: "[msg_idx s..<Suc (length (ecu_reply s))] =
      msg_idx s # [Suc (msg_idx s)..<Suc (length (ecu_reply s))]"
    using lt by (simp add: upt_conv_Cons)
  have "recv_loop (\<lambda>i. [65]) port (i + 1) ?s1 ?tr1 =
     Some (Inl (Reply_overflow (length (ecu_reply ?s1))),
           ?tr1 @ concat (map (\<lambda>k. [RS232_PollComport port [65], Store_reply k 65])
                            [msg_idx ?s1..<Suc (length (ecu_reply ?s1))]))"
    by (rule Suc.hyps(1)[OF d r b])
  then show ?case
    unfolding step by (simp add: u del: upt_Suc)
qed

section \<open>When the framing returns\<close>

lemma store_reply_room:
  "msg_idx s < length (ecu_reply s) \<Longrightarrow> \<exists>s' tr'. store_reply b s tr = (Inr s', tr')"
  by (simp add: store_reply_def)

lemma frame_byte_room:
  assumes "msg_idx s + length (frame_rule b) \<le> length (ecu_reply s)"
  shows "\<exists>s' tr'. frame_byte b s tr = (Inr s', tr')"
proof (cases "b < 32")
  case True
  show ?thesis
  proof (cases "b = 13")
    case True
    with assms have "msg_idx s < length (ecu_reply s)" by (simp add: frame_rule_def)
    from store_reply_room[OF this, of 33 tr] True \<open>b < 32\<close> show ?thesis
      by (simp add: frame_byte_def)
  next
    case False
    with \<open>b < 32\<close> show ?thesis by (simp add: frame_byte_def)
  qed
next
  case False
  with assms have lt: "msg_idx s < length (ecu_reply s)" by (simp add: frame_rule_def)
  show ?thesis
  proof (cases "b = 62")
    case True
    from lt have "msg_idx (s\<lparr>interpreter_ready_status := 1\<rparr>)
        < length (ecu_reply (s\<lparr>interpreter_ready_status := 1\<rparr>))" by simp
    from store_reply_room[OF this, of b tr] obtain s' tr' where
      "store_reply b (s\<lparr>interpreter_ready_status := 1\<rparr>) tr = (Inr s', tr')" by blast
    with True False show ?thesis by (simp add: frame_byte_def)
  next
    case b: False
    from store_reply_room[OF lt, of b tr] b False show ?thesis
      by (simp add: frame_byte_def)
  qed
qed

lemma frame_chunk_room:
  assumes "msg_idx s + length (framed bs) \<le> length (ecu_reply s)"
  shows "\<exists>s' tr'. frame_chunk bs s tr = (Inr s', tr')"
  using assms
proof (induction bs arbitrary: s tr)
  case Nil
  then show ?case by simp
next
  case (Cons b bs)
  from Cons.prems have room: "msg_idx s + length (frame_rule b) \<le> length (ecu_reply s)"
    and bnd: "msg_idx s \<le> length (ecu_reply s)"
    by (simp_all add: framed_def)
  from frame_byte_room[OF room, of tr] obtain s1 tr1 where
    b: "frame_byte b s tr = (Inr s1, tr1)" by blast
  from frame_byte_frames[OF b bnd] have f: "frames s tr [] (frame_rule b) s1 tr1" by simp
  then have "msg_idx s1 = msg_idx s + length (frame_rule b)"
    "length (ecu_reply s1) = length (ecu_reply s)"
    by (simp_all add: frames_def)
  with Cons.prems have "msg_idx s1 + length (framed bs) \<le> length (ecu_reply s1)"
    by (simp add: framed_def)
  from Cons.IH[OF this, of tr1] b show ?case by simp
qed

text \<open>When the \<open>k\<close>-th poll from \<open>i\<close> on is the first to hold \<^verbatim>\<open>>\<close> and the framed
  bytes of the polls up to it fit into the buffer, the loop returns.\<close>

lemma recv_loop_returns:
  assumes "62 \<in> set (poll (i + k))" "\<forall>j<k. 62 \<notin> set (poll (i + j))"
    and "interpreter_ready_status s = 0"
    and "msg_idx s + length (framed (concat (map poll [i..<Suc (i + k)]))) \<le> length (ecu_reply s)"
  shows "\<exists>s' tr'. recv_loop poll port i s tr = Some (Inr s', tr')"
  using assms
proof (induction k arbitrary: i s tr)
  case 0
  let ?tr0 = "tr @ [RS232_PollComport port (poll i)]"
  from 0(4) have room: "msg_idx s + length (framed (poll i)) \<le> length (ecu_reply s)" by simp
  then have bnd: "msg_idx s \<le> length (ecu_reply s)" by simp
  from frame_chunk_room[OF room, of ?tr0] obtain s1 tr1 where
    c: "frame_chunk (poll i) s ?tr0 = (Inr s1, tr1)" by blast
  from frame_chunk_frames[OF c bnd] 0(1) have r1: "interpreter_ready_status s1 = 1" by simp
  have "recv_loop poll port i s tr = recv_loop poll port (i + 1) s1 tr1"
    by (subst recv_loop.simps) (simp add: 0(3) c)
  also have "\<dots> = Some (Inr s1, tr1)"
    by (subst recv_loop.simps) (simp add: r1)
  finally show ?case by blast
next
  case (Suc k)
  let ?tr0 = "tr @ [RS232_PollComport port (poll i)]"
  have up: "[i..<Suc (i + Suc k)] = i # [Suc i..<Suc (Suc i + k)]"
    by (simp add: upt_conv_Cons del: upt_Suc)
  from Suc.prems(4) have all: "msg_idx s + length (framed (poll i)) +
      length (framed (concat (map poll [Suc i..<Suc (Suc i + k)]))) \<le> length (ecu_reply s)"
    unfolding up by (simp add: framed_append)
  then have room: "msg_idx s + length (framed (poll i)) \<le> length (ecu_reply s)" by simp
  then have bnd: "msg_idx s \<le> length (ecu_reply s)" by simp
  from frame_chunk_room[OF room, of ?tr0] obtain s1 tr1 where
    c: "frame_chunk (poll i) s ?tr0 = (Inr s1, tr1)" by blast
  from Suc.prems(2) have no: "62 \<notin> set (poll i)" by (metis add.right_neutral zero_less_Suc)
  from frame_chunk_frames[OF c bnd] no Suc.prems(3)
  have f: "frames s ?tr0 [] (framed (poll i)) s1 tr1" and r1: "interpreter_ready_status s1 = 0"
    by simp_all
  from f have m1: "msg_idx s1 = msg_idx s + length (framed (poll i))"
    and l1: "length (ecu_reply s1) = length (ecu_reply s)"
    by (simp_all add: frames_def)
  have a1: "62 \<in> set (poll (Suc i + k))" using Suc.prems(1) by simp
  have a2: "\<forall>j<k. 62 \<notin> set (poll (Suc i + j))"
  proof (intro allI impI)
    fix j assume "j < k"
    then have "Suc j < Suc k" by simp
    with Suc.prems(2) have "62 \<notin> set (poll (i + Suc j))" by blast
    then show "62 \<notin> set (poll (Suc i + j))" by simp
  qed
  have a4: "msg_idx s1 + length (framed (concat (map poll [Suc i..<Suc (Suc i + k)])))
      \<le> length (ecu_reply s1)"
    using all m1 l1 by simp
  from Suc.IH[OF a1 a2 r1 a4, of tr1] obtain s' tr' where
    "recv_loop poll port (Suc i) s1 tr1 = Some (Inr s', tr')" by blast
  moreover have "recv_loop poll port i s tr = recv_loop poll port (Suc i) s1 tr1"
    by (subst recv_loop.simps) (simp add: Suc.prems(3) c)
  ultimately show ?case by simp
qed

lemma recv_ecu_reply_returns:
  assumes "62 \<in> set (poll k)" "\<forall>j<k. 62 \<notin> set (poll j)"
    and "length (framed (concat (map poll [0..<Suc k]))) \<le> length buf"
  shows "\<exists>n buf' tr'. recv_ecu_reply poll port buf tr = Some (Inr (n, buf'), tr')"
proof -
  let ?s0 = "\<lparr>msg_idx = 0, interpreter_ready_status = 0, ecu_reply = buf\<rparr>"
  have "\<exists>s' tr'. recv_loop poll port 0 ?s0 tr = Some (Inr s', tr')"
    by (rule recv_loop_returns[where k = k]) (use assms in simp_all)
  then show ?thesis by (auto simp: recv_ecu_reply_def)
qed

section \<open>Lemmas on the query and on the reply branch\<close>






lemma c_str_terminated: "0 \<notin> set r \<Longrightarrow> c_str (r @ 0 # pad) = r"
  by (induction r) (simp_all add: c_str_def)


lemma replacechar_terminated:
  "0 \<notin> set r \<Longrightarrow> replacechar (r @ 0 # pad) a b = map (\<lambda>c. if c = a then b else c) r @ 0 # pad"
proof -
  assume r: "0 \<notin> set r"
  then have "dropWhile (\<lambda>b. b \<noteq> 0) (r @ 0 # pad) = 0 # pad"
    by (induction r) simp_all
  with r show ?thesis by (simp add: replacechar_def c_str_terminated)
qed

lemma sprintf_log_fits:
  "0 \<notin> set r \<Longrightarrow> length p + length r + 1 \<le> cap \<Longrightarrow>
   sprintf_log cap p (r @ 0 # pad) = Inr (bytes p @ r)"
  by (simp add: sprintf_log_def strlen_def c_str_terminated)


lemma classify_reply_nonempty:
  "m \<noteq> [] \<Longrightarrow> classify_reply cap rc n m tr =
     (if 0 \<notin> set m then (Inl Buffer_overrun, tr)
      else if hd m = 65 then
        (case sprintf_log cap ''RXD: '' (replacechar m 33 32) of
           Inl e \<Rightarrow> (Inl e, tr)
         | Inr log_buf \<Rightarrow>
             if nat n > length (replacechar m 33 32)
             then (Inl Buffer_overrun, tr @ [Print_log_entry log_buf])
             else do_sendto rc (take (nat n) (replacechar m 33 32)) (tr @ [Print_log_entry log_buf]))
      else if hd m = 48 then
        (case second_strtok (c_str m) of
           None \<Rightarrow> (Inr (), tr)
         | Some pch \<Rightarrow>
             (case sprintf_log cap ''RXD: '' pch of
                Inl e \<Rightarrow> (Inl e, tr)
              | Inr log_buf \<Rightarrow> do_sendto rc (c_str pch) (tr @ [Print_log_entry log_buf])))
      else
        (case sprintf_log cap ''RXD Unknown ECU Message: '' m of
           Inl e \<Rightarrow> (Inl e, tr)
         | Inr log_buf \<Rightarrow> (Inr (), tr @ [Print_log_entry log_buf])))"
proof (cases m)
  case Nil
  assume "m \<noteq> []"
  with Nil show ?thesis by simp
next
  case (Cons a list)
  show ?thesis unfolding Cons classify_reply_def
    by (simp add: Let_def cong: sum.case_cong option.case_cong if_cong)
qed

section \<open>Lemmas on tokens\<close>

lemma fields_unfold:
  "split_fields d s = takeWhile (\<lambda>b. b \<noteq> d) s #
     (case dropWhile (\<lambda>b. b \<noteq> d) s of [] \<Rightarrow> [] | x # rest \<Rightarrow> split_fields d rest)"
  by (induction s) simp_all

lemma tokens_Nil: "tokens d [] = []"
  by (simp add: tokens_def)

lemma tokens_dropWhile: "tokens d (dropWhile (\<lambda>b. b = d) s) = tokens d s"
  by (induction s) (simp_all add: tokens_def)

lemma strtok_None: "strtok d s = None \<Longrightarrow> tokens d s = []"
proof -
  assume "strtok d s = None"
  then have "dropWhile (\<lambda>b. b = d) s = []"
    by (simp add: strtok_def Let_def split: if_splits)
  with tokens_dropWhile[of d s] show ?thesis by (simp add: tokens_Nil)
qed

lemma strtok_Some:
  assumes "strtok d s = Some (t, rest)"
  shows "tokens d s = t # tokens d rest"
proof -
  let ?s1 = "dropWhile (\<lambda>b. b = d) s"
  from assms have ne: "?s1 \<noteq> []" and t: "t = takeWhile (\<lambda>b. b \<noteq> d) ?s1"
    and rest: "rest = drop 1 (dropWhile (\<lambda>b. b \<noteq> d) ?s1)"
    by (simp_all add: strtok_def Let_def split: if_splits)
  from ne have "hd ?s1 \<noteq> d" using hd_dropWhile[of "\<lambda>b. b = d" s] by simp
  with ne have tne: "t \<noteq> []" unfolding t by (cases ?s1) simp_all
  have F: "split_fields d ?s1 =
      t # (case dropWhile (\<lambda>b. b \<noteq> d) ?s1 of [] \<Rightarrow> [] | x # r \<Rightarrow> split_fields d r)"
    unfolding t by (rule fields_unfold)
  have R: "filter (\<lambda>f. f \<noteq> [])
      (case dropWhile (\<lambda>b. b \<noteq> d) ?s1 of [] \<Rightarrow> [] | x # r \<Rightarrow> split_fields d r) = tokens d rest"
    unfolding rest tokens_def
    by (cases "dropWhile (\<lambda>b. b \<noteq> d) ?s1") (simp_all del: dropWhile_eq_Nil_conv)
  have "tokens d ?s1 = filter (\<lambda>f. f \<noteq> []) (split_fields d ?s1)"
    by (simp only: tokens_def)
  also have "\<dots> = t # tokens d rest"
    unfolding F using tne R by (simp del: dropWhile_eq_Nil_conv)
  finally have "tokens d ?s1 = t # tokens d rest" .
  then show ?thesis by (simp add: tokens_dropWhile)
qed

lemma second_strtok_tokens:
  "second_strtok s = (case tokens 33 s of t1 # t2 # ts \<Rightarrow> Some t2 | _ \<Rightarrow> None)"
proof (cases "strtok 33 s")
  case None
  from strtok_None[OF None] None show ?thesis by (simp add: second_strtok_def)
next
  case (Some p)
  obtain t1 rest where p: "p = (t1, rest)" by (cases p)
  from strtok_Some[OF Some[unfolded p]] have 1: "tokens 33 s = t1 # tokens 33 rest" .
  show ?thesis
  proof (cases "strtok 33 rest")
    case None
    from strtok_None[OF None] None Some p 1 show ?thesis by (simp add: second_strtok_def)
  next
    case (Some q)
    obtain t2 rest' where q: "q = (t2, rest')" by (cases q)
    from strtok_Some[OF Some[unfolded q]] Some q \<open>strtok 33 s = Some p\<close> p 1 show ?thesis
      by (simp add: second_strtok_def)
  qed
qed




section \<open>The claims\<close>

subsection \<open>Claim C1\<close>

text \<open>
  Claim C1 says that framing ends at the first \<^verbatim>\<open>>\<close> and that no byte arriving after
  it appears in the framed reply. The \<^verbatim>\<open>for\<close> loop sets the flag at \<^verbatim>\<open>>\<close> and goes
  on to the end of the bytes of that poll: here one poll delivers
  the bytes \<^verbatim>\<open>O\<close>, \<^verbatim>\<open>K\<close>, carriage return, \<^verbatim>\<open>>\<close> and \<^verbatim>\<open>X\<close>, and the reply that
  \<^verbatim>\<open>recv_ecu_reply\<close> returns is \<^verbatim>\<open>OK!>X\<close>, of length 5.
\<close>

theorem framing_continues_after_ready:
  "recv_ecu_reply (\<lambda>i. [79, 75, 13, 62, 88]) 0 [0, 0, 0, 0, 0, 0, 0, 0] [] =
     Some (Inr (5, bytes ''OK!>X'' @ [0, 0, 0]),
           [RS232_PollComport 0 [79, 75, 13, 62, 88],
            Store_reply 0 79, Store_reply 1 75, Store_reply 2 33, Store_reply 3 62,
            Printf Interpreter_ready, Store_reply 4 88, RS232_flushRX 0])"
  by (simp add: recv_ecu_reply_def recv_loop.simps frame_byte_def store_reply_def bytes_def)

subsection \<open>Claim C2\<close>

text \<open>
  Claim C2 says that a query of length 0 leads to no serial input or output and to no
  datagram. \<^verbatim>\<open>main\<close> calls \<^verbatim>\<open>recv_ecu_reply\<close> whatever \<^verbatim>\<open>send_ecu_query\<close> has
  returned: for an empty datagram, with \<^verbatim>\<open>BUFFER_MAX_LEN\<close> 16 and a serial line that
  delivers \<^verbatim>\<open>A>\<close>, the iteration polls the port, flushes its receive buffer and sends
  the datagram \<^verbatim>\<open>A>\<close>.
\<close>

theorem rejected_query_still_polls_and_replies:
  "gateway_iteration 16 0 (\<lambda>p. 0) (\<lambda>i. bytes ''A>'') (Some []) [] =
     Some (Inr (),
       [Printf Bad_message_length, RS232_PollComport 0 (bytes ''A>''),
        Store_reply 0 65, Store_reply 1 62, Printf Interpreter_ready, RS232_flushRX 0,
        Print_log_entry (bytes ''RXD: A>''), Sendto (bytes ''A>'')])"
  by (simp add: gateway_iteration_def replicate_numeral
        serve_query_def send_ecu_query_def strlen_def c_str_def bytes_def sprintf_log_def
        recv_ecu_reply_def recv_loop.simps frame_byte_def store_reply_def
        process_reply_def classify_reply_def replacechar_def do_sendto_def)

subsection \<open>Claim C3\<close>

text \<open>
  Claim C3 says that no byte is stored at or behind the capacity of the reply buffer.
  Whatever the capacity \<^verbatim>\<open>BUFFER_MAX_LEN\<close> of the zeroed buffer: when every poll
  delivers the byte \<^verbatim>\<open>A\<close>, \<^verbatim>\<open>recv_ecu_reply\<close> stores at the indices 0 to
  \<^verbatim>\<open>BUFFER_MAX_LEN\<close>, the last of which is behind the end of the buffer.
\<close>

theorem reply_buffer_store_out_of_bounds:
  "recv_ecu_reply (\<lambda>i. [65]) serial_port (replicate BUFFER_MAX_LEN 0) tr =
     Some (Inl (Reply_overflow BUFFER_MAX_LEN),
           tr @ concat (map (\<lambda>k. [RS232_PollComport serial_port [65], Store_reply k 65])
                            [0..<Suc BUFFER_MAX_LEN])) \<and>
   Store_reply BUFFER_MAX_LEN 65 \<in>
     set (concat (map (\<lambda>k. [RS232_PollComport serial_port [65], Store_reply k 65])
                      [0..<Suc BUFFER_MAX_LEN]))"
proof
  show "recv_ecu_reply (\<lambda>i. [65]) serial_port (replicate BUFFER_MAX_LEN 0) tr =
     Some (Inl (Reply_overflow BUFFER_MAX_LEN),
           tr @ concat (map (\<lambda>k. [RS232_PollComport serial_port [65], Store_reply k 65])
                            [0..<Suc BUFFER_MAX_LEN]))"
    by (simp add: recv_ecu_reply_def overflow_loop del: upt_Suc)
  show "Store_reply BUFFER_MAX_LEN 65 \<in>
     set (concat (map (\<lambda>k. [RS232_PollComport serial_port [65], Store_reply k 65])
                      [0..<Suc BUFFER_MAX_LEN]))"
    by simp
qed

subsection \<open>Claim C4\<close>

text \<open>
  Claim C4, amended. A reply whose first byte is \<^verbatim>\<open>0\<close> and which has no second token
  (it sits in \<^verbatim>\<open>ecu_msg\<close> before a zero byte) yields nothing: no log entry is written
  and nothing is sent. The claim says that an unknown-message entry is logged; the code
  logs that entry only for a first byte other than \<^verbatim>\<open>A\<close> and \<^verbatim>\<open>0\<close>.
\<close>

theorem zero_reply_without_second_token_is_dropped:
  assumes "ecu_msg = r @ 0 # pad" "0 \<notin> set r" "r \<noteq> []" "hd r = 48"
    and "n = int (length r)" "length (tokens 33 r) < 2"
  shows "process_reply BUFFER_MAX_LEN sendto_rc n ecu_msg tr = (Inr (), tr)"
proof -
  have tok: "second_strtok (c_str ecu_msg) = None"
    unfolding assms(1) c_str_terminated[OF assms(2)] second_strtok_tokens
    using assms(6) by (cases "tokens 33 r" rule: list.exhaust[case_names Nil Cons])
      (auto split: list.splits)
  have pos: "0 < n" using assms(3,5) by simp
  have m: "ecu_msg \<noteq> []" "hd ecu_msg = 48" "0 \<in> set ecu_msg" using assms(1,3,4) by simp_all
  have "classify_reply BUFFER_MAX_LEN sendto_rc n ecu_msg tr = (Inr (), tr)"
    unfolding classify_reply_nonempty[OF m(1)] tok
    using m(2,3) by simp
  with pos show ?thesis by (simp add: process_reply_def)
qed

theorem zero_reply_without_second_token_is_dropped_witness:
  "bytes ''0100>'' @ [0, 0, 0] = bytes ''0100>'' @ 0 # [0, 0] \<and>
   0 \<notin> set (bytes ''0100>'') \<and> bytes ''0100>'' \<noteq> [] \<and> hd (bytes ''0100>'') = 48 \<and>
   (5::int) = int (length (bytes ''0100>'')) \<and> length (tokens 33 (bytes ''0100>'')) < 2 \<and>
   process_reply 8 (\<lambda>p. int (length p)) 5 (bytes ''0100>'' @ [0, 0, 0]) [] = (Inr (), [])"
proof -
  have h1: "bytes ''0100>'' @ [0, 0, 0] = bytes ''0100>'' @ 0 # [0, 0]" by simp
  have h2: "0 \<notin> set (bytes ''0100>'')" by (simp add: bytes_def)
  have h3: "bytes ''0100>'' \<noteq> []" by (simp add: bytes_def)
  have h4: "hd (bytes ''0100>'') = 48" by (simp add: bytes_def)
  have h5: "(5::int) = int (length (bytes ''0100>''))" by (simp add: bytes_def)
  have h6: "length (tokens 33 (bytes ''0100>'')) < 2" by (simp add: bytes_def tokens_def)
  from h1 h2 h3 h4 h5 h6 zero_reply_without_second_token_is_dropped[OF h1 h2 h3 h4 h5 h6, of 8 "\<lambda>p. int (length p)" "[]"]
  show ?thesis by blast
qed

text \<open>
  The claim as it stands fails for the reply \<^verbatim>\<open>0100>\<close>: its first byte is \<^verbatim>\<open>0\<close>,
  it is its own single token, and the trace stays empty, so no log entry is written.
\<close>

theorem zero_reply_without_second_token_not_logged:
  "hd (bytes ''0100>'') = 48 \<and> tokens 33 (bytes ''0100>'') = [bytes ''0100>''] \<and>
   process_reply 8 (\<lambda>p. int (length p)) 5 (bytes ''0100>'' @ [0, 0, 0]) [] = (Inr (), [])"
  by (simp add: bytes_def tokens_def process_reply_def classify_reply_def second_strtok_def
      strtok_def c_str_def)

subsection \<open>Claim C5\<close>



subsection \<open>Claim C6\<close>



subsection \<open>Claim C7\<close>

text \<open>
  Claim C7, amended. A reply whose first byte is \<^verbatim>\<open>A\<close>, which sits in \<^verbatim>\<open>ecu_msg\<close>
  before a zero byte and which fits \<^verbatim>\<open>log_buf\<close> behind the prefix \<^verbatim>\<open>RXD: \<close>, is logged
  and sent whole with every \<^verbatim>\<open>!\<close> replaced by a space and no other change. The reply
  \<^verbatim>\<open>ATRV!12.3V!\<close> is sent as the eleven bytes \<^verbatim>\<open>ATRV 12.3V \<close>, the last of them the
  space that replaces the last \<^verbatim>\<open>!\<close>.
\<close>

theorem at_reply_delimiters_become_spaces:
  assumes "ecu_msg = r @ 0 # pad" "0 \<notin> set r" "r \<noteq> []" "hd r = 65"
    and "n = int (length r)" "length r + 6 \<le> BUFFER_MAX_LEN"
  shows "process_reply BUFFER_MAX_LEN sendto_rc n ecu_msg tr =
     ((if sendto_rc (map (\<lambda>c. if c = 33 then 32 else c) r) < 0
       then Inl (Fatal_error ''sendto'') else Inr ()),
      tr @ [Print_log_entry (bytes ''RXD: '' @ map (\<lambda>c. if c = 33 then 32 else c) r),
            Sendto (map (\<lambda>c. if c = 33 then 32 else c) r)])"
proof -
  let ?r' = "map (\<lambda>c. if c = 33 then 32 else c) r"
  have z: "0 \<notin> set ?r'" using assms(2) by auto
  have rep: "replacechar ecu_msg 33 32 = ?r' @ 0 # pad"
    unfolding assms(1) by (rule replacechar_terminated[OF assms(2)])
  have lg: "sprintf_log BUFFER_MAX_LEN ''RXD: '' (?r' @ 0 # pad) = Inr (bytes ''RXD: '' @ ?r')"
    using assms(6) by (intro sprintf_log_fits[OF z]) simp
  have pos: "0 < n" using assms(3,5) by simp
  have tk: "take (nat n) (?r' @ 0 # pad) = ?r'" using assms(5) by simp
  have len: "\<not> length (?r' @ 0 # pad) < nat n" using assms(5) by simp
  have m: "ecu_msg \<noteq> []" "hd ecu_msg = 65" "0 \<in> set ecu_msg" using assms(1,3,4) by simp_all
  have "classify_reply BUFFER_MAX_LEN sendto_rc n ecu_msg tr =
      do_sendto sendto_rc ?r' (tr @ [Print_log_entry (bytes ''RXD: '' @ ?r')])"
    unfolding classify_reply_nonempty[OF m(1)] rep lg
    using m(2,3) tk len by simp
  with pos show ?thesis by (simp add: process_reply_def do_sendto_def)
qed

theorem at_reply_delimiters_become_spaces_witness:
  "bytes ''ATRV!12.3V!'' @ [0, 0, 0, 0, 0] = bytes ''ATRV!12.3V!'' @ 0 # [0, 0, 0, 0] \<and>
   0 \<notin> set (bytes ''ATRV!12.3V!'') \<and> bytes ''ATRV!12.3V!'' \<noteq> [] \<and>
   hd (bytes ''ATRV!12.3V!'') = 65 \<and> (11::int) = int (length (bytes ''ATRV!12.3V!'')) \<and>
   length (bytes ''ATRV!12.3V!'') + 6 \<le> 32 \<and>
   process_reply 32 (\<lambda>p. int (length p)) 11 (bytes ''ATRV!12.3V!'' @ [0, 0, 0, 0, 0]) [] =
     (Inr (), [Print_log_entry (bytes ''RXD: ATRV 12.3V ''), Sendto (bytes ''ATRV 12.3V '')])"
proof -
  have h1: "bytes ''ATRV!12.3V!'' @ [0, 0, 0, 0, 0] = bytes ''ATRV!12.3V!'' @ 0 # [0, 0, 0, 0]"
    by simp
  have h2: "0 \<notin> set (bytes ''ATRV!12.3V!'')" by (simp add: bytes_def)
  have h3: "bytes ''ATRV!12.3V!'' \<noteq> []" by (simp add: bytes_def)
  have h4: "hd (bytes ''ATRV!12.3V!'') = 65" by (simp add: bytes_def)
  have h5: "(11::int) = int (length (bytes ''ATRV!12.3V!''))" by (simp add: bytes_def)
  have h6: "length (bytes ''ATRV!12.3V!'') + 6 \<le> 32" by (simp add: bytes_def)
  have m: "map (\<lambda>c. if c = 33 then 32 else c) (bytes ''ATRV!12.3V!'') = bytes ''ATRV 12.3V ''"
    by (simp add: bytes_def)
  have res: "process_reply 32 (\<lambda>p. int (length p)) 11 (bytes ''ATRV!12.3V!'' @ [0, 0, 0, 0, 0]) [] =
     (Inr (), [Print_log_entry (bytes ''RXD: ATRV 12.3V ''), Sendto (bytes ''ATRV 12.3V '')])"
    unfolding at_reply_delimiters_become_spaces[OF h1 h2 h3 h4 h5 h6, of "\<lambda>p. int (length p)" "[]"] m
    by (simp add: bytes_def)
  from h1 h2 h3 h4 h5 h6 res show ?thesis by blast
qed

text \<open>
  The claim as it stands names the ten bytes \<^verbatim>\<open>ATRV 12.3V\<close> as what is sent for
  \<^verbatim>\<open>ATRV!12.3V!\<close>; the datagram has eleven bytes and ends with a space.
\<close>

theorem at_reply_example_keeps_trailing_space:
  "snd (process_reply 32 (\<lambda>p. int (length p)) 11 (bytes ''ATRV!12.3V!'' @ [0, 0, 0, 0, 0]) []) =
     [Print_log_entry (bytes ''RXD: ATRV 12.3V ''), Sendto (bytes ''ATRV 12.3V '')] \<and>
   Sendto (bytes ''ATRV 12.3V'') \<notin>
     set (snd (process_reply 32 (\<lambda>p. int (length p)) 11 (bytes ''ATRV!12.3V!'' @ [0, 0, 0, 0, 0]) []))"
  by (simp add: bytes_def process_reply_def classify_reply_def replacechar_def sprintf_log_def
      do_sendto_def strlen_def c_str_def)

subsection \<open>Claim C8\<close>



subsection \<open>Claim C9\<close>

text \<open>
  Claim C9. The reply that \<^verbatim>\<open>recv_ecu_reply\<close> returns holds no byte below 32, and it is
  the polled bytes with every byte below 32 dropped, except carriage return, in whose
  place \<^verbatim>\<open>!\<close> stands.
\<close>

theorem framed_reply_has_no_control_bytes:
  assumes "recv_ecu_reply poll serial_port ecu_reply_buf tr = Some (Inr (n, ecu_msg), tr')"
  shows "list_all (\<lambda>b. 32 \<le> b) (take (nat n) ecu_msg) \<and>
         take (nat n) ecu_msg = framed (polled (drop (length tr) tr'))"
proof -
  from recv_ecu_reply_Inr[OF assms] obtain ev where
    ev: "tr' = tr @ ev @ [RS232_flushRX serial_port]"
      "take (nat n) ecu_msg = framed (polled ev)"
    by blast
  from ev(1) have "polled (drop (length tr) tr') = polled ev" by simp
  with ev(2) show ?thesis by (auto simp: list_all_iff dest: framed_ge)
qed

theorem framed_reply_has_no_control_bytes_witness:
  "recv_ecu_reply (\<lambda>i. [52, 49, 10, 13, 7, 62]) 0 [0, 0, 0, 0, 0, 0] [] =
     Some (Inr (4, bytes ''41!>'' @ [0, 0]),
           [RS232_PollComport 0 [52, 49, 10, 13, 7, 62],
            Store_reply 0 52, Store_reply 1 49, Store_reply 2 33, Store_reply 3 62,
            Printf Interpreter_ready, RS232_flushRX 0]) \<and>
   list_all (\<lambda>b. 32 \<le> b) (take (nat 4) (bytes ''41!>'' @ [0, 0])) \<and>
   take (nat 4) (bytes ''41!>'' @ [0, 0]) = framed [52, 49, 10, 13, 7, 62]"
proof -
  have run: "recv_ecu_reply (\<lambda>i. [52, 49, 10, 13, 7, 62]) 0 [0, 0, 0, 0, 0, 0] [] =
     Some (Inr (4, bytes ''41!>'' @ [0, 0]),
           [RS232_PollComport 0 [52, 49, 10, 13, 7, 62],
            Store_reply 0 52, Store_reply 1 49, Store_reply 2 33, Store_reply 3 62,
            Printf Interpreter_ready, RS232_flushRX 0])"
    by (simp add: recv_ecu_reply_def recv_loop.simps frame_byte_def store_reply_def bytes_def)
  from framed_reply_has_no_control_bytes[OF run] run show ?thesis by (simp add: bytes_def framed_def frame_rule_def)
qed

subsection \<open>Claim C10\<close>

text \<open>
  Claim C10. Whenever \<^verbatim>\<open>recv_ecu_reply\<close> returns, the value it returns is the number
  of bytes it has stored into the reply buffer, and it is at least 1; so the branch
  \<^verbatim>\<open>if (n > 0)\<close> of \<^verbatim>\<open>main\<close> is taken after every framing that returns.
\<close>

theorem recv_ecu_reply_returns_stored_count:
  assumes "recv_ecu_reply poll serial_port ecu_reply_buf tr = Some (Inr (n, ecu_msg), tr')"
  shows "n = int (length (stores (drop (length tr) tr'))) \<and> 1 \<le> n \<and>
         process_reply BUFFER_MAX_LEN sendto_rc n ecu_msg tr' =
           classify_reply BUFFER_MAX_LEN sendto_rc n ecu_msg tr'"
proof -
  from recv_ecu_reply_Inr[OF assms] obtain ev where
    ev: "tr' = tr @ ev @ [RS232_flushRX serial_port]" "62 \<in> set (polled ev)"
      "n = int (length (framed (polled ev)))" "map snd (stores ev) = framed (polled ev)"
    by blast
  from ev(4) have "length (stores ev) = length (framed (polled ev))"
    by (metis length_map)
  with ev(1,3) have a: "n = int (length (stores (drop (length tr) tr')))" by simp
  from framed_ready[OF ev(2)] have "framed (polled ev) \<noteq> []" by auto
  with ev(3) have b: "1 \<le> n" by (cases "framed (polled ev)") simp_all
  from b have "process_reply BUFFER_MAX_LEN sendto_rc n ecu_msg tr' =
      classify_reply BUFFER_MAX_LEN sendto_rc n ecu_msg tr'"
    by (simp add: process_reply_def)
  with a b show ?thesis by blast
qed

theorem recv_ecu_reply_returns_stored_count_witness:
  "recv_ecu_reply (\<lambda>i. if i = 0 then [] else [79, 75, 13, 62]) 0 [0, 0, 0, 0, 0] [] =
     Some (Inr (4, bytes ''OK!>'' @ [0]),
           [RS232_PollComport 0 [], RS232_PollComport 0 [79, 75, 13, 62],
            Store_reply 0 79, Store_reply 1 75, Store_reply 2 33, Store_reply 3 62,
            Printf Interpreter_ready, RS232_flushRX 0]) \<and>
   (4::int) = int (length (stores
        [RS232_PollComport 0 [], RS232_PollComport 0 [79, 75, 13, 62],
         Store_reply 0 79, Store_reply 1 75, Store_reply 2 33, Store_reply 3 62,
         Printf Interpreter_ready, RS232_flushRX 0])) \<and>
   process_reply 16 (\<lambda>p. 0) 4 (bytes ''OK!>'' @ [0])
        [RS232_PollComport 0 [], RS232_PollComport 0 [79, 75, 13, 62],
         Store_reply 0 79, Store_reply 1 75, Store_reply 2 33, Store_reply 3 62,
         Printf Interpreter_ready, RS232_flushRX 0] =
   classify_reply 16 (\<lambda>p. 0) 4 (bytes ''OK!>'' @ [0])
        [RS232_PollComport 0 [], RS232_PollComport 0 [79, 75, 13, 62],
         Store_reply 0 79, Store_reply 1 75, Store_reply 2 33, Store_reply 3 62,
         Printf Interpreter_ready, RS232_flushRX 0]"
proof -
  have run: "recv_ecu_reply (\<lambda>i. if i = 0 then [] else [79, 75, 13, 62]) 0 [0, 0, 0, 0, 0] [] =
     Some (Inr (4, bytes ''OK!>'' @ [0]),
           [RS232_PollComport 0 [], RS232_PollComport 0 [79, 75, 13, 62],
            Store_reply 0 79, Store_reply 1 75, Store_reply 2 33, Store_reply 3 62,
            Printf Interpreter_ready, RS232_flushRX 0])"
    by (simp add: recv_ecu_reply_def recv_loop.simps frame_byte_def store_reply_def bytes_def)
  from recv_ecu_reply_returns_stored_count[OF run, of 16 "\<lambda>p. 0"] run show ?thesis by simp
qed

end
